theory Spec2Isabelle
  imports Main "HOL-Library.Word"
begin

unbundle bit_operations_syntax

section \<open>Data model of package nbt\<close>

text \<open>
  A Go \<^verbatim>\<open>byte\<close> is an 8-bit word and \<^verbatim>\<open>NodeType\<close> is declared as
  \<^verbatim>\<open>type NodeType byte\<close>. The \<^verbatim>\<open>io.Reader\<close> every function receives is
  modelled by the bytes it has not delivered yet: reading consumes a prefix, and each
  function returns the reader it leaves behind together with its value. The bytes are
  those of the decompressed stream; gzip and the file system are outside the model.
\<close>

type_synonym byte = "8 word"
type_synonym NodeType = byte
type_synonym reader = "byte list"

definition NodeTypeEnd :: NodeType where "NodeTypeEnd = 0"
definition NodeTypeByte :: NodeType where "NodeTypeByte = 1"
definition NodeTypeShort :: NodeType where "NodeTypeShort = 2"
definition NodeTypeInt :: NodeType where "NodeTypeInt = 3"
definition NodeTypeLong :: NodeType where "NodeTypeLong = 4"
definition NodeTypeFloat :: NodeType where "NodeTypeFloat = 5"
definition NodeTypeDouble :: NodeType where "NodeTypeDouble = 6"
definition NodeTypeByteArray :: NodeType where "NodeTypeByteArray = 7"
definition NodeTypeString :: NodeType where "NodeTypeString = 8"
definition NodeTypeList :: NodeType where "NodeTypeList = 9"
definition NodeTypeCompound :: NodeType where "NodeTypeCompound = 10"
definition NodeTypeIntArray :: NodeType where "NodeTypeIntArray = 11"
definition NodeTypeLongArray :: NodeType where "NodeTypeLongArray = 12"

lemmas NodeType_defs =
  NodeTypeEnd_def NodeTypeByte_def NodeTypeShort_def NodeTypeInt_def NodeTypeLong_def
  NodeTypeFloat_def NodeTypeDouble_def NodeTypeByteArray_def NodeTypeString_def
  NodeTypeList_def NodeTypeCompound_def NodeTypeIntArray_def NodeTypeLongArray_def

text \<open>
  The node structs, one constructor per struct, with the field types of the source:
  \<^verbatim>\<open>int16\<close>, \<^verbatim>\<open>int32\<close> and \<^verbatim>\<open>int64\<close> are words read with \<open>sint\<close>. A
  \<^verbatim>\<open>float32\<close> or \<^verbatim>\<open>float64\<close> is represented by its IEEE-754 bit pattern, so that
  \<^verbatim>\<open>math.Float32frombits\<close> and \<^verbatim>\<open>math.Float64frombits\<close> are the identity on
  the representation. \<^verbatim>\<open>Values []Node\<close> is a slice of interface values, which may be
  nil: an element is \<open>None\<close> (nil) or \<open>Some\<close> node. \<^verbatim>\<open>map[string]Node\<close> is a
  partial function from strings.
\<close>

datatype Node =
    ByteNode byte
  | ShortNode "16 word"
  | IntNode "32 word"
  | LongNode "64 word"
  | FloatNode "32 word"
  | DoubleNode "64 word"
  | StringNode string
  | ListNode "Node option list"
  | CompoundNode "string \<Rightarrow> Node option"
  | IntArrayNode "Node option list"

record File =
  Root :: Node

text \<open>
  Errors are values. \<open>EOF\<close> and \<open>ErrUnexpectedEOF\<close> are the two errors of
  \<^verbatim>\<open>io.ReadFull\<close>; the other constructors are the \<^verbatim>\<open>fmt.Errorf\<close> calls of the
  source, those with \<^verbatim>\<open>%w\<close> keeping the error they wrap. A run-time panic is not an
  error value: it aborts the call, and is the third outcome.
\<close>

datatype err =
    EOF
  | ErrUnexpectedEOF
  | UnsupportedNodeType NodeType
  | ReadListIndex nat err
  | ReadCompoundChild string err
  | ReadNbtData err

datatype 'a outcome = Ok 'a | Err err | Panic

section \<open>Library functions the decoder calls\<close>

text \<open>
  \<^verbatim>\<open>io.ReadFull(r, buf)\<close> with \<open>n = len(buf)\<close>: it fills the buffer, or fails with
  \<^verbatim>\<open>io.EOF\<close> when no byte was read and with \<^verbatim>\<open>io.ErrUnexpectedEOF\<close> when some but
  not all were. For \<open>n = 0\<close> it succeeds without reading.
  \<^verbatim>\<open>binary.BigEndian.Uint16/32/64\<close> combine the bytes with shifts, the first byte being
  the most significant. \<^verbatim>\<open>string(val)\<close> keeps the bytes as they are; here each byte
  becomes the character with that code.
\<close>

definition ReadFull :: "reader \<Rightarrow> nat \<Rightarrow> (byte list \<times> reader) outcome" where
  "ReadFull r n =
     (if n \<le> length r then Ok (take n r, drop n r)
      else if r = [] then Err EOF
      else Err ErrUnexpectedEOF)"

definition Uint16 :: "byte list \<Rightarrow> 16 word" where
  "Uint16 b = ucast (b ! 1) OR push_bit 8 (ucast (b ! 0))"

definition Uint32 :: "byte list \<Rightarrow> 32 word" where
  "Uint32 b = ucast (b ! 3) OR push_bit 8 (ucast (b ! 2)) OR push_bit 16 (ucast (b ! 1))
     OR push_bit 24 (ucast (b ! 0))"

definition Uint64 :: "byte list \<Rightarrow> 64 word" where
  "Uint64 b = ucast (b ! 7) OR push_bit 8 (ucast (b ! 6)) OR push_bit 16 (ucast (b ! 5))
     OR push_bit 24 (ucast (b ! 4)) OR push_bit 32 (ucast (b ! 3)) OR push_bit 40 (ucast (b ! 2))
     OR push_bit 48 (ucast (b ! 1)) OR push_bit 56 (ucast (b ! 0))"

definition string_of_bytes :: "byte list \<Rightarrow> string" where
  "string_of_bytes val = map (\<lambda>b. char_of (unat b)) val"

section \<open>Raw reads\<close>

definition readRawByte :: "reader \<Rightarrow> (byte \<times> reader) outcome" where
  "readRawByte r =
     (case ReadFull r 1 of
        Err e \<Rightarrow> Err e
      | Panic \<Rightarrow> Panic
      | Ok (val, r') \<Rightarrow> Ok (val ! 0, r'))"

definition readRawUShort :: "reader \<Rightarrow> (16 word \<times> reader) outcome" where
  "readRawUShort r =
     (case ReadFull r 2 of
        Err e \<Rightarrow> Err e
      | Panic \<Rightarrow> Panic
      | Ok (val, r') \<Rightarrow> Ok (Uint16 val, r'))"

definition readRawInt :: "reader \<Rightarrow> (32 word \<times> reader) outcome" where
  "readRawInt r =
     (case ReadFull r 4 of
        Err e \<Rightarrow> Err e
      | Panic \<Rightarrow> Panic
      | Ok (val, r') \<Rightarrow> Ok (Uint32 val, r'))"

definition readRawString :: "reader \<Rightarrow> (string \<times> reader) outcome" where
  "readRawString r =
     (case readRawUShort r of
        Err e \<Rightarrow> Err e
      | Panic \<Rightarrow> Panic
      | Ok (strLen, r1) \<Rightarrow>
          (case ReadFull r1 (unat strLen) of
             Err e \<Rightarrow> Err e
           | Panic \<Rightarrow> Panic
           | Ok (val, r2) \<Rightarrow> Ok (string_of_bytes val, r2)))"

definition readRawNodeType :: "reader \<Rightarrow> (NodeType \<times> reader) outcome" where
  "readRawNodeType r =
     (case readRawByte r of
        Err e \<Rightarrow> Err e
      | Panic \<Rightarrow> Panic
      | Ok (val, r') \<Rightarrow> Ok (val, r'))"

section \<open>Scalar and string nodes\<close>

definition readByteNode :: "reader \<Rightarrow> (Node \<times> reader) outcome" where
  "readByteNode r =
     (case readRawByte r of
        Err e \<Rightarrow> Err e
      | Panic \<Rightarrow> Panic
      | Ok (val, r') \<Rightarrow> Ok (ByteNode val, r'))"

definition readShortNode :: "reader \<Rightarrow> (Node \<times> reader) outcome" where
  "readShortNode r =
     (case ReadFull r 2 of
        Err e \<Rightarrow> Err e
      | Panic \<Rightarrow> Panic
      | Ok (val, r') \<Rightarrow> Ok (ShortNode (Uint16 val), r'))"

definition readIntNode :: "reader \<Rightarrow> (Node \<times> reader) outcome" where
  "readIntNode r =
     (case readRawInt r of
        Err e \<Rightarrow> Err e
      | Panic \<Rightarrow> Panic
      | Ok (val, r') \<Rightarrow> Ok (IntNode val, r'))"

definition readLongNode :: "reader \<Rightarrow> (Node \<times> reader) outcome" where
  "readLongNode r =
     (case ReadFull r 8 of
        Err e \<Rightarrow> Err e
      | Panic \<Rightarrow> Panic
      | Ok (val, r') \<Rightarrow> Ok (LongNode (Uint64 val), r'))"

definition readFloatNode :: "reader \<Rightarrow> (Node \<times> reader) outcome" where
  "readFloatNode r =
     (case ReadFull r 4 of
        Err e \<Rightarrow> Err e
      | Panic \<Rightarrow> Panic
      | Ok (val, r') \<Rightarrow> Ok (FloatNode (Uint32 val), r'))"

definition readDoubleNode :: "reader \<Rightarrow> (Node \<times> reader) outcome" where
  "readDoubleNode r =
     (case ReadFull r 8 of
        Err e \<Rightarrow> Err e
      | Panic \<Rightarrow> Panic
      | Ok (val, r') \<Rightarrow> Ok (DoubleNode (Uint64 val), r'))"

definition readStringNode :: "reader \<Rightarrow> (Node \<times> reader) outcome" where
  "readStringNode r =
     (case readRawString r of
        Err e \<Rightarrow> Err e
      | Panic \<Rightarrow> Panic
      | Ok (val, r') \<Rightarrow> Ok (StringNode val, r'))"

section \<open>The recursive decoder\<close>

text \<open>
  \<^verbatim>\<open>readNodeOfType\<close>, \<^verbatim>\<open>readListNode\<close>, \<^verbatim>\<open>readCompoundNode\<close> and
  \<^verbatim>\<open>readIntArrayNode\<close> call each other. Each \<^verbatim>\<open>for\<close> loop is a function of its
  own, over the variables the loop changes: the reader, the index \<open>i\<close> and the
  \<open>Values\<close> built so far.

  \<^verbatim>\<open>make([]Node, childCount)\<close> panics for a negative length and otherwise returns
  \<open>childCount\<close> nil elements, to which the loop appends. The slice is allocated before
  any child is read. Memory is not modelled: for a count whose slice the runtime cannot
  allocate the process aborts at \<^verbatim>\<open>make\<close>, where these definitions go on to the loop.
  What is proved below of a List or an IntArray holds of the source for counts whose
  slice can be allocated. \<^verbatim>\<open>for i := range int(childCount)\<close> runs for
  \<open>i = 0, ..., childCount - 1\<close>.
  In \<^verbatim>\<open>readCompoundNode\<close> the loop ends at the End tag, at an error, and, when
  \<open>isRoot\<close> holds, after the first entry. The \<^verbatim>\<open>fmt.Println(childName)\<close> of that
  loop writes to standard output and does not touch the reader or the result; it is left
  out.
\<close>

function readNodeOfType :: "reader \<Rightarrow> NodeType \<Rightarrow> bool \<Rightarrow> (Node \<times> reader) outcome"
  and readListNode :: "reader \<Rightarrow> (Node \<times> reader) outcome"
  and readListNode_loop ::
    "reader \<Rightarrow> NodeType \<Rightarrow> nat \<Rightarrow> nat \<Rightarrow> Node option list \<Rightarrow> (Node \<times> reader) outcome"
  and readCompoundNode :: "reader \<Rightarrow> bool \<Rightarrow> (Node \<times> reader) outcome"
  and readCompoundNode_loop ::
    "reader \<Rightarrow> bool \<Rightarrow> (string \<Rightarrow> Node option) \<Rightarrow> (Node \<times> reader) outcome"
  and readIntArrayNode :: "reader \<Rightarrow> (Node \<times> reader) outcome"
  and readIntArrayNode_loop ::
    "reader \<Rightarrow> nat \<Rightarrow> nat \<Rightarrow> Node option list \<Rightarrow> (Node \<times> reader) outcome"
where
  "readNodeOfType r nodeType isRoot =
     (if nodeType = NodeTypeByte then readByteNode r
      else if nodeType = NodeTypeShort then readShortNode r
      else if nodeType = NodeTypeInt then readIntNode r
      else if nodeType = NodeTypeLong then readLongNode r
      else if nodeType = NodeTypeFloat then readFloatNode r
      else if nodeType = NodeTypeDouble then readDoubleNode r
      else if nodeType = NodeTypeString then readStringNode r
      else if nodeType = NodeTypeList then readListNode r
      else if nodeType = NodeTypeCompound then readCompoundNode r isRoot
      else if nodeType = NodeTypeIntArray then readIntArrayNode r
      else Err (UnsupportedNodeType nodeType))"
| "readListNode r =
     (case readRawNodeType r of
        Err e \<Rightarrow> Err e
      | Panic \<Rightarrow> Panic
      | Ok (childNodeType, r1) \<Rightarrow>
          (case readRawInt r1 of
             Err e \<Rightarrow> Err e
           | Panic \<Rightarrow> Panic
           | Ok (childCount, r2) \<Rightarrow>
               if sint childCount < 0 then Panic
               else readListNode_loop r2 childNodeType (nat (sint childCount)) 0
                      (replicate (nat (sint childCount)) None)))"
| "readListNode_loop r childNodeType n i Values =
     (if i < n then
        (case readNodeOfType r childNodeType False of
           Err e \<Rightarrow> Err (ReadListIndex i e)
         | Panic \<Rightarrow> Panic
         | Ok (childNode, r') \<Rightarrow>
             readListNode_loop r' childNodeType n (i + 1) (Values @ [Some childNode]))
      else Ok (ListNode Values, r))"
| "readCompoundNode r isRoot = readCompoundNode_loop r isRoot Map.empty"
| "readCompoundNode_loop r isRoot Values =
     (case readRawNodeType r of
        Err e \<Rightarrow> Err e
      | Panic \<Rightarrow> Panic
      | Ok (childNodeType, r1) \<Rightarrow>
          if childNodeType = NodeTypeEnd then Ok (CompoundNode Values, r1)
          else
            (case readRawString r1 of
               Err e \<Rightarrow> Err e
             | Panic \<Rightarrow> Panic
             | Ok (childName, r2) \<Rightarrow>
                 (case readNodeOfType r2 childNodeType False of
                    Err e \<Rightarrow> Err (ReadCompoundChild childName e)
                  | Panic \<Rightarrow> Panic
                  | Ok (childNode, r3) \<Rightarrow>
                      if isRoot then Ok (CompoundNode (Values(childName \<mapsto> childNode)), r3)
                      else readCompoundNode_loop r3 isRoot (Values(childName \<mapsto> childNode)))))"
| "readIntArrayNode r =
     (case readRawInt r of
        Err e \<Rightarrow> Err e
      | Panic \<Rightarrow> Panic
      | Ok (childCount, r1) \<Rightarrow>
          if sint childCount < 0 then Panic
          else readIntArrayNode_loop r1 (nat (sint childCount)) 0
                 (replicate (nat (sint childCount)) None))"
| "readIntArrayNode_loop r n i Values =
     (if i < n then
        (case readNodeOfType r NodeTypeInt False of
           Err e \<Rightarrow> Err (ReadListIndex i e)
         | Panic \<Rightarrow> Panic
         | Ok (childNode, r') \<Rightarrow>
             readIntArrayNode_loop r' n (i + 1) (Values @ [Some childNode]))
      else Ok (IntArrayNode Values, r))"
  by pat_completeness auto

text \<open>
  Termination: a successful call never returns a longer reader than it was given, so
  the length of the reader, then the position in the call graph and the iterations a
  counted loop has left, decrease lexicographically.
\<close>

abbreviation (input) reads_dom where
  "reads_dom \<equiv> readNodeOfType_readListNode_readListNode_loop_readCompoundNode_readCompoundNode_loop_readIntArrayNode_readIntArrayNode_loop_dom"

lemma ReadFull_Ok: "ReadFull r n = Ok (val, r') \<Longrightarrow> n \<le> length r \<and> val = take n r \<and> r' = drop n r"
  by (auto simp: ReadFull_def split: if_splits)

lemma readRawByte_Ok: "readRawByte r = Ok (x, r') \<Longrightarrow> r = x # r'"
  by (cases r) (auto simp: readRawByte_def ReadFull_def split: if_splits)

lemma readRawNodeType_Ok: "readRawNodeType r = Ok (x, r') \<Longrightarrow> r = x # r'"
  by (auto simp: readRawNodeType_def dest: readRawByte_Ok split: outcome.splits)

lemma readRawUShort_Ok: "readRawUShort r = Ok (x, r') \<Longrightarrow> 2 \<le> length r \<and> r' = drop 2 r"
  by (auto simp: readRawUShort_def dest!: ReadFull_Ok split: outcome.splits)

lemma readRawInt_Ok: "readRawInt r = Ok (x, r') \<Longrightarrow> 4 \<le> length r \<and> r' = drop 4 r"
  by (auto simp: readRawInt_def dest!: ReadFull_Ok split: outcome.splits)

lemma readRawString_Ok:
  "readRawString r = Ok (x, r') \<Longrightarrow> 2 \<le> length r \<and> length r' \<le> length r - 2"
  by (auto simp: readRawString_def dest!: ReadFull_Ok readRawUShort_Ok split: outcome.splits)

lemma scalar_length:
  "readByteNode r = Ok (v, r') \<Longrightarrow> length r' \<le> length r"
  "readShortNode r = Ok (v, r') \<Longrightarrow> length r' \<le> length r"
  "readIntNode r = Ok (v, r') \<Longrightarrow> length r' \<le> length r"
  "readLongNode r = Ok (v, r') \<Longrightarrow> length r' \<le> length r"
  "readFloatNode r = Ok (v, r') \<Longrightarrow> length r' \<le> length r"
  "readDoubleNode r = Ok (v, r') \<Longrightarrow> length r' \<le> length r"
  "readStringNode r = Ok (v, r') \<Longrightarrow> length r' \<le> length r"
  by (auto simp: readByteNode_def readShortNode_def readIntNode_def readLongNode_def
      readFloatNode_def readDoubleNode_def readStringNode_def
      dest!: ReadFull_Ok readRawByte_Ok readRawInt_Ok readRawString_Ok split: outcome.splits)

lemma reads_dom_length:
  "reads_dom (Inl (Inl (r, t, b))) \<Longrightarrow>
     (\<forall>v r'. readNodeOfType r t b = Ok (v, r') \<longrightarrow> length r' \<le> length r)"
  "reads_dom (Inl (Inr (Inl r))) \<Longrightarrow>
     (\<forall>v r'. readListNode r = Ok (v, r') \<longrightarrow> length r' \<le> length r)"
  "reads_dom (Inl (Inr (Inr (r, ct, n, i, vs)))) \<Longrightarrow>
     (\<forall>v r'. readListNode_loop r ct n i vs = Ok (v, r') \<longrightarrow> length r' \<le> length r)"
  "reads_dom (Inr (Inl (Inl (r, b)))) \<Longrightarrow>
     (\<forall>v r'. readCompoundNode r b = Ok (v, r') \<longrightarrow> length r' \<le> length r)"
  "reads_dom (Inr (Inl (Inr (r, b, m)))) \<Longrightarrow>
     (\<forall>v r'. readCompoundNode_loop r b m = Ok (v, r') \<longrightarrow> length r' \<le> length r)"
  "reads_dom (Inr (Inr (Inl r))) \<Longrightarrow>
     (\<forall>v r'. readIntArrayNode r = Ok (v, r') \<longrightarrow> length r' \<le> length r)"
  "reads_dom (Inr (Inr (Inr (r, n, i, vs)))) \<Longrightarrow>
     (\<forall>v r'. readIntArrayNode_loop r n i vs = Ok (v, r') \<longrightarrow> length r' \<le> length r)"
proof (induct rule: readNodeOfType_readListNode_readListNode_loop_readCompoundNode_readCompoundNode_loop_readIntArrayNode_readIntArrayNode_loop.pinduct)
  case (1 r nodeType isRoot)
  show ?case
  proof (intro allI impI)
    fix v r' assume a: "readNodeOfType r nodeType isRoot = Ok (v, r')"
    show "length r' \<le> length r"
      using a 1 by (simp add: readNodeOfType.psimps scalar_length split: if_splits)
  qed
next
  case (2 r)
  show ?case
  proof (intro allI impI)
    fix v r' assume a: "readListNode r = Ok (v, r')"
    from a 2(1) obtain ct r1 cnt r2 where
      h: "readRawNodeType r = Ok (ct, r1)" "readRawInt r1 = Ok (cnt, r2)" "\<not> sint cnt < 0"
         "readListNode_loop r2 ct (nat (sint cnt)) 0 (replicate (nat (sint cnt)) None) = Ok (v, r')"
      by (auto simp: readListNode.psimps split: outcome.splits if_splits)
    from 2(2)[OF h(1) refl h(2) refl h(3)] h(4) have "length r' \<le> length r2" by blast
    moreover from h(1,2) have "length r2 \<le> length r"
      by (auto dest!: readRawNodeType_Ok readRawInt_Ok)
    ultimately show "length r' \<le> length r" by simp
  qed
next
  case (3 r childNodeType n i Values)
  show ?case
  proof (intro allI impI)
    fix v r' assume a: "readListNode_loop r childNodeType n i Values = Ok (v, r')"
    show "length r' \<le> length r"
    proof (cases "i < n")
      case True
      with a 3(1) obtain c r1 where
        h: "readNodeOfType r childNodeType False = Ok (c, r1)"
           "readListNode_loop r1 childNodeType n (i + 1) (Values @ [Some c]) = Ok (v, r')"
        by (auto simp: readListNode_loop.psimps split: outcome.splits)
      from 3(2)[OF True] h(1) have "length r1 \<le> length r" by blast
      moreover from 3(3)[OF True h(1) refl] h(2) have "length r' \<le> length r1" by blast
      ultimately show ?thesis by simp
    next
      case False
      with a 3(1) show ?thesis by (simp add: readListNode_loop.psimps)
    qed
  qed
next
  case (4 r isRoot)
  then show ?case by (simp add: readCompoundNode.psimps)
next
  case (5 r isRoot Values)
  show ?case
  proof (intro allI impI)
    fix v r' assume a: "readCompoundNode_loop r isRoot Values = Ok (v, r')"
    from a 5(1) obtain ct r1 where h1: "readRawNodeType r = Ok (ct, r1)"
      by (auto simp: readCompoundNode_loop.psimps split: outcome.splits)
    then have l1: "length r1 \<le> length r" by (auto dest!: readRawNodeType_Ok)
    show "length r' \<le> length r"
    proof (cases "ct = NodeTypeEnd")
      case True
      with a 5(1) h1 l1 show ?thesis by (simp add: readCompoundNode_loop.psimps)
    next
      case False
      with a 5(1) h1 obtain k r2 c r3 where
        h: "readRawString r1 = Ok (k, r2)" "readNodeOfType r2 ct False = Ok (c, r3)"
           "if isRoot then r' = r3
            else readCompoundNode_loop r3 isRoot (Values(k \<mapsto> c)) = Ok (v, r')"
        by (auto simp: readCompoundNode_loop.psimps split: outcome.splits if_splits)
      from h(1) have l2: "length r2 \<le> length r1" by (auto dest!: readRawString_Ok)
      from 5(2)[OF h1 refl False h(1) refl] h(2) have l3: "length r3 \<le> length r2" by blast
      have "length r' \<le> length r3"
      proof (cases isRoot)
        case True
        with h(3) show ?thesis by simp
      next
        case nr: False
        with h(3) 5(3)[OF h1 refl False h(1) refl h(2) refl nr] show ?thesis
          by (simp add: fun_upd_def)
      qed
      with l1 l2 l3 show ?thesis by simp
    qed
  qed
next
  case (6 r)
  show ?case
  proof (intro allI impI)
    fix v r' assume a: "readIntArrayNode r = Ok (v, r')"
    from a 6(1) obtain cnt r1 where
      h: "readRawInt r = Ok (cnt, r1)" "\<not> sint cnt < 0"
         "readIntArrayNode_loop r1 (nat (sint cnt)) 0 (replicate (nat (sint cnt)) None) = Ok (v, r')"
      by (auto simp: readIntArrayNode.psimps split: outcome.splits if_splits)
    from 6(2)[OF h(1) refl h(2)] h(3) have "length r' \<le> length r1" by blast
    moreover from h(1) have "length r1 \<le> length r" by (auto dest!: readRawInt_Ok)
    ultimately show "length r' \<le> length r" by simp
  qed
next
  case (7 r n i Values)
  show ?case
  proof (intro allI impI)
    fix v r' assume a: "readIntArrayNode_loop r n i Values = Ok (v, r')"
    show "length r' \<le> length r"
    proof (cases "i < n")
      case True
      with a 7(1) obtain c r1 where
        h: "readNodeOfType r NodeTypeInt False = Ok (c, r1)"
           "readIntArrayNode_loop r1 n (i + 1) (Values @ [Some c]) = Ok (v, r')"
        by (auto simp: readIntArrayNode_loop.psimps split: outcome.splits)
      from 7(2)[OF True] h(1) have "length r1 \<le> length r" by blast
      moreover from 7(3)[OF True h(1) refl] h(2) have "length r' \<le> length r1" by blast
      ultimately show ?thesis by simp
    next
      case False
      with a 7(1) show ?thesis by (simp add: readIntArrayNode_loop.psimps)
    qed
  qed
qed

termination readNodeOfType
proof (relation "(\<lambda>x. case x of
      Inl (Inl (r, t, b)) \<Rightarrow> length r
    | Inl (Inr (Inl r)) \<Rightarrow> length r
    | Inl (Inr (Inr (r, ct, n, i, vs))) \<Rightarrow> length r
    | Inr (Inl (Inl (r, b))) \<Rightarrow> length r
    | Inr (Inl (Inr (r, b, m))) \<Rightarrow> length r
    | Inr (Inr (Inl r)) \<Rightarrow> length r
    | Inr (Inr (Inr (r, n, i, vs))) \<Rightarrow> length r)
   <*mlex*> measure (\<lambda>x. case x of
      Inl (Inl (r, t, b)) \<Rightarrow> 2
    | Inl (Inr (Inl r)) \<Rightarrow> 1
    | Inl (Inr (Inr (r, ct, n, i, vs))) \<Rightarrow> 3 + (n - i)
    | Inr (Inl (Inl (r, b))) \<Rightarrow> 1
    | Inr (Inl (Inr (r, b, m))) \<Rightarrow> 0
    | Inr (Inr (Inl r)) \<Rightarrow> 1
    | Inr (Inr (Inr (r, n, i, vs))) \<Rightarrow> 3 + (n - i))", goal_cases)
  case 1
  show ?case by (simp add: wf_mlex)
next
  case 2
  show ?case by (simp add: mlex_prod_def)
next
  case 3
  show ?case by (simp add: mlex_prod_def)
next
  case 4
  show ?case by (simp add: mlex_prod_def)
next
  case 5
  then show ?case by (auto simp: mlex_prod_def dest!: readRawNodeType_Ok readRawInt_Ok)
next
  case 6
  then show ?case by (simp add: mlex_prod_def)
next
  case (7 r ct n i vs x1 x y)
  from reads_dom_length(1)[OF 7(4)] 7(2,3) have "length y \<le> length r" by auto
  with 7(1) show ?case by (auto simp: mlex_prod_def)
next
  case 8
  show ?case by (simp add: mlex_prod_def)
next
  case 9
  then show ?case by (auto simp: mlex_prod_def dest!: readRawNodeType_Ok readRawString_Ok)
next
  case (10 r isRoot Values x1 x y x1a xa ya x1b xb yb)
  from reads_dom_length(1)[OF 10(9)] 10(6,7) have "length yb \<le> length ya" by auto
  with 10(1-5) show ?case
    by (auto simp: mlex_prod_def dest!: readRawNodeType_Ok readRawString_Ok)
next
  case 11
  then show ?case by (auto simp: mlex_prod_def dest!: readRawInt_Ok)
next
  case 12
  then show ?case by (simp add: mlex_prod_def)
next
  case (13 r n i vs x1 x y)
  from reads_dom_length(1)[OF 13(4)] 13(2,3) have "length y \<le> length r" by auto
  with 13(1) show ?case by (auto simp: mlex_prod_def)
qed

declare readNodeOfType.simps [simp del]
declare readListNode.simps [simp del]
declare readListNode_loop.simps [simp del]
declare readCompoundNode.simps [simp del]
declare readCompoundNode_loop.simps [simp del]
declare readIntArrayNode.simps [simp del]
declare readIntArrayNode_loop.simps [simp del]

lemmas reads_simps =
  readNodeOfType.simps readListNode.simps readListNode_loop.simps readCompoundNode.simps
  readCompoundNode_loop.simps readIntArrayNode.simps readIntArrayNode_loop.simps

lemmas reads_induct =
  readNodeOfType_readListNode_readListNode_loop_readCompoundNode_readCompoundNode_loop_readIntArrayNode_readIntArrayNode_loop.induct

section \<open>Entry point and the nodes' Type methods\<close>

definition ReadFromStream :: "reader \<Rightarrow> (File \<times> reader) outcome" where
  "ReadFromStream r =
     (case readNodeOfType r NodeTypeCompound True of
        Err e \<Rightarrow> Err (ReadNbtData e)
      | Panic \<Rightarrow> Panic
      | Ok (rootNode, r') \<Rightarrow> Ok (\<lparr>Root = rootNode\<rparr>, r'))"

text \<open>The seven \<^verbatim>\<open>Type()\<close> methods, as the source has them.\<close>

fun Type :: "Node \<Rightarrow> NodeType" where
  "Type (ByteNode v) = NodeTypeByte"
| "Type (ShortNode v) = NodeTypeShort"
| "Type (IntNode v) = NodeTypeInt"
| "Type (LongNode v) = NodeTypeLong"
| "Type (FloatNode v) = NodeTypeFloat"
| "Type (DoubleNode v) = NodeTypeDouble"
| "Type (StringNode v) = NodeTypeInt"
| "Type (ListNode v) = NodeTypeList"
| "Type (CompoundNode v) = NodeTypeCompound"
| "Type (IntArrayNode v) = NodeTypeIntArray"

section \<open>Notions used to state the properties\<close>

text \<open>
  The big-endian byte representation of a value, as the format defines it: most
  significant byte first. These are the inputs of the round-trip property; the source
  has no encoder.
\<close>

definition be16 :: "16 word \<Rightarrow> byte list" where
  "be16 v = [ucast (drop_bit 8 v), ucast v]"

definition be32 :: "32 word \<Rightarrow> byte list" where
  "be32 v = [ucast (drop_bit 24 v), ucast (drop_bit 16 v), ucast (drop_bit 8 v), ucast v]"

definition be64 :: "64 word \<Rightarrow> byte list" where
  "be64 v = [ucast (drop_bit 56 v), ucast (drop_bit 48 v), ucast (drop_bit 40 v),
     ucast (drop_bit 32 v), ucast (drop_bit 24 v), ucast (drop_bit 16 v),
     ucast (drop_bit 8 v), ucast v]"

text \<open>
  An error is a short read when unwrapping it (as \<^verbatim>\<open>errors.Is\<close> follows \<^verbatim>\<open>%w\<close>) ends
  at one of the two errors of \<^verbatim>\<open>io.ReadFull\<close>.
\<close>

fun isShortRead :: "err \<Rightarrow> bool" where
  "isShortRead EOF = True"
| "isShortRead ErrUnexpectedEOF = True"
| "isShortRead (UnsupportedNodeType t) = False"
| "isShortRead (ReadListIndex i e) = isShortRead e"
| "isShortRead (ReadCompoundChild k e) = isShortRead e"
| "isShortRead (ReadNbtData e) = isShortRead e"

text \<open>
  \<open>entriesFrom r es r'\<close>: starting at \<open>r\<close>, the reads of the Map loop (a tag other than
  End, a name, a value of the tag's kind) succeed once for each pair of \<open>es\<close>, in order,
  with these names and values, and leave the reader \<open>r'\<close>.
\<close>

fun entriesFrom :: "reader \<Rightarrow> (string \<times> Node) list \<Rightarrow> reader \<Rightarrow> bool" where
  "entriesFrom r [] r' = (r' = r)"
| "entriesFrom r ((k, v) # es) r' =
     (case readRawNodeType r of
        Ok (t, r1) \<Rightarrow>
          t \<noteq> NodeTypeEnd \<and>
          (case readRawString r1 of
             Ok (k', r2) \<Rightarrow>
               k' = k \<and>
               (case readNodeOfType r2 t False of
                  Ok (v', r3) \<Rightarrow> v' = v \<and> entriesFrom r3 es r'
                | _ \<Rightarrow> False)
           | _ \<Rightarrow> False)
      | _ \<Rightarrow> False)"

text \<open>
  A function from readers frames its input at \<open>r\<close> when a successful result at \<open>r\<close>
  is determined by the prefix it consumed: on that prefix followed by any other bytes it
  returns the same value and leaves exactly those bytes, and on every proper prefix of the
  consumed bytes it fails with a short read.
\<close>

definition frames :: "(reader \<Rightarrow> ('a \<times> reader) outcome) \<Rightarrow> reader \<Rightarrow> bool" where
  "frames g r \<longleftrightarrow>
     (\<forall>v r'. g r = Ok (v, r') \<longrightarrow>
        (\<exists>p. r = p @ r' \<and> (\<forall>s. g (p @ s) = Ok (v, s)) \<and>
             (\<forall>k<length p. \<exists>e. g (take k p) = Err e \<and> isShortRead e)))"

section \<open>Evaluation on concrete streams\<close>

lemma replicate_numeral_Cons: "replicate (numeral k) x = x # replicate (pred_numeral k) x"
  by (simp add: numeral_eq_Suc)

lemma char_of_x: "char_of (120 :: nat) = CHR ''x''"
  by code_simp

lemma char_of_a: "char_of (97 :: nat) = CHR ''a''"
  by code_simp

lemmas eval_simps =
  reads_simps ReadFromStream_def ReadFull_def readRawByte_def readRawUShort_def readRawInt_def
  readRawString_def readRawNodeType_def readByteNode_def readShortNode_def readIntNode_def
  readLongNode_def readFloatNode_def readDoubleNode_def readStringNode_def Uint16_def
  Uint32_def Uint64_def string_of_bytes_def NodeType_defs replicate_numeral_Cons
  char_of_x char_of_a

section \<open>Big-endian reads invert the big-endian representation\<close>

lemma Uint16_be16: "Uint16 (be16 v) = v"
  unfolding Uint16_def be16_def
  apply (rule bit_word_eqI)
  subgoal for n
    apply (cases "n < 8")
     apply (simp_all add: bit_simps not_less less_diff_conv2)
    done
  done

lemma Uint32_be32: "Uint32 (be32 v) = v"
  unfolding Uint32_def be32_def
  apply (rule bit_word_eqI)
  subgoal for n
    apply (cases "n < 8"; cases "n < 16"; cases "n < 24")
           apply (simp_all add: bit_simps not_less less_diff_conv2)
    done
  done

lemma Uint64_be64: "Uint64 (be64 v) = v"
  unfolding Uint64_def be64_def
  apply (rule bit_word_eqI)
  subgoal for n
    apply (cases "n < 8")
     apply (simp add: bit_simps)
    apply (cases "n < 16")
     apply (simp add: bit_simps not_less less_diff_conv2)
    apply (cases "n < 24")
     apply (simp add: bit_simps not_less less_diff_conv2)
    apply (cases "n < 32")
     apply (simp add: bit_simps not_less less_diff_conv2)
    apply (cases "n < 40")
     apply (simp add: bit_simps not_less less_diff_conv2)
    apply (cases "n < 48")
     apply (simp add: bit_simps not_less less_diff_conv2)
    apply (cases "n < 56")
     apply (simp add: bit_simps not_less less_diff_conv2)
    apply (simp add: bit_simps not_less less_diff_conv2)
    done
  done

lemma ReadFull_append: "length p = n \<Longrightarrow> ReadFull (p @ r) n = Ok (p, r)"
  by (simp add: ReadFull_def)

text \<open>
  C5. Reading a scalar of any of the six kinds from the big-endian bytes of a value
  \<open>v\<close> gives the node holding exactly \<open>v\<close>, for every \<open>v\<close> of the width: the extreme
  signed values and every Float and Double bit pattern (zeros, NaNs) are among them. A
  Float or Double node holds the bit pattern itself, which is what
  \<^verbatim>\<open>math.Float32frombits\<close> and \<^verbatim>\<open>math.Float64frombits\<close> preserve.
\<close>

theorem scalar_roundtrip:
  "readNodeOfType (b # r) NodeTypeByte isRoot = Ok (ByteNode b, r) \<and>
   readNodeOfType (be16 s @ r) NodeTypeShort isRoot = Ok (ShortNode s, r) \<and>
   readNodeOfType (be32 i @ r) NodeTypeInt isRoot = Ok (IntNode i, r) \<and>
   readNodeOfType (be64 l @ r) NodeTypeLong isRoot = Ok (LongNode l, r) \<and>
   readNodeOfType (be32 f @ r) NodeTypeFloat isRoot = Ok (FloatNode f, r) \<and>
   readNodeOfType (be64 d @ r) NodeTypeDouble isRoot = Ok (DoubleNode d, r)"
proof -
  have l16: "length (be16 s) = 2" by (simp add: be16_def)
  have l32: "length (be32 i) = 4" "length (be32 f) = 4" by (simp_all add: be32_def)
  have l64: "length (be64 l) = 8" "length (be64 d) = 8" by (simp_all add: be64_def)
  have "readNodeOfType (b # r) NodeTypeByte isRoot = Ok (ByteNode b, r)"
    by (simp add: readNodeOfType.simps readByteNode_def readRawByte_def ReadFull_def)
  moreover have "readNodeOfType (be16 s @ r) NodeTypeShort isRoot = Ok (ShortNode s, r)"
    by (simp add: readNodeOfType.simps NodeType_defs readShortNode_def ReadFull_append[OF l16]
        Uint16_be16)
  moreover have "readNodeOfType (be32 i @ r) NodeTypeInt isRoot = Ok (IntNode i, r)"
    by (simp add: readNodeOfType.simps NodeType_defs readIntNode_def readRawInt_def
        ReadFull_append[OF l32(1)] Uint32_be32)
  moreover have "readNodeOfType (be64 l @ r) NodeTypeLong isRoot = Ok (LongNode l, r)"
    by (simp add: readNodeOfType.simps NodeType_defs readLongNode_def
        ReadFull_append[OF l64(1)] Uint64_be64)
  moreover have "readNodeOfType (be32 f @ r) NodeTypeFloat isRoot = Ok (FloatNode f, r)"
    by (simp add: readNodeOfType.simps NodeType_defs readFloatNode_def
        ReadFull_append[OF l32(2)] Uint32_be32)
  moreover have "readNodeOfType (be64 d @ r) NodeTypeDouble isRoot = Ok (DoubleNode d, r)"
    by (simp add: readNodeOfType.simps NodeType_defs readDoubleNode_def
        ReadFull_append[OF l64(2)] Uint64_be64)
  ultimately show ?thesis by blast
qed

section \<open>Dispatch on the tag kind\<close>

lemma readNodeOfType_unsupported:
  "t = NodeTypeByteArray \<or> t = NodeTypeLongArray \<or> NodeTypeLongArray < t \<Longrightarrow>
   readNodeOfType r t isRoot = Err (UnsupportedNodeType t)"
  by (auto simp: readNodeOfType.simps NodeType_defs)

text \<open>
  C8. A value read dispatched on ByteArray (7), on LongArray (12) or on a tag above the
  enumeration fails with the unsupported-node-type error; it returns no node and, failing
  before any read, consumes nothing.
\<close>

theorem unsupported_variant:
  "t = NodeTypeByteArray \<or> t = NodeTypeLongArray \<or> NodeTypeLongArray < t \<Longrightarrow>
   readNodeOfType r t isRoot = Err (UnsupportedNodeType t)"
  by (rule readNodeOfType_unsupported)

text \<open>C8, at the tags 7, 12 and 200.\<close>

theorem unsupported_variant_witness:
  "readNodeOfType [1, 2, 3] 7 False = Err (UnsupportedNodeType 7) \<and>
   readNodeOfType [1, 2, 3] 12 False = Err (UnsupportedNodeType 12) \<and>
   readNodeOfType [1, 2, 3] 200 True = Err (UnsupportedNodeType 200)"
proof -
  have h1: "(7 :: byte) = NodeTypeByteArray \<or> (7 :: byte) = NodeTypeLongArray
      \<or> NodeTypeLongArray < (7 :: byte)"
    by (simp add: NodeType_defs)
  have h2: "(12 :: byte) = NodeTypeByteArray \<or> (12 :: byte) = NodeTypeLongArray
      \<or> NodeTypeLongArray < (12 :: byte)"
    by (simp add: NodeType_defs)
  have h3: "(200 :: byte) = NodeTypeByteArray \<or> (200 :: byte) = NodeTypeLongArray
      \<or> NodeTypeLongArray < (200 :: byte)"
    by (simp add: NodeType_defs)
  show ?thesis
    using unsupported_variant[OF h1, of "[1, 2, 3]" False]
      unsupported_variant[OF h2, of "[1, 2, 3]" False]
      unsupported_variant[OF h3, of "[1, 2, 3]" True]
    by simp
qed

section \<open>List and IntArray: the length of the decoded sequence\<close>

text \<open>
  Each loop appends one element per iteration to the \<open>Values\<close> it starts from, and it
  starts from the \<open>childCount\<close> nil elements of \<^verbatim>\<open>make\<close>: a successful decode with
  declared count \<open>n\<close> returns \<open>n\<close> nil elements followed by the \<open>n\<close> decoded ones.
\<close>

lemma readListNode_loop_length:
  "readListNode_loop r ct n i vs = Ok (v, r') \<Longrightarrow>
   \<exists>vs'. v = ListNode (vs @ vs') \<and> length vs' = n - i"
proof (induction "n - i" arbitrary: r i vs)
  case 0
  then show ?case by (subst (asm) readListNode_loop.simps) auto
next
  case (Suc d)
  then have lt: "i < n" by simp
  with Suc.prems obtain c r1 where
    h: "readListNode_loop r1 ct n (i + 1) (vs @ [Some c]) = Ok (v, r')"
    by (subst (asm) readListNode_loop.simps) (auto split: outcome.splits)
  from Suc.hyps(2) have "d = n - (i + 1)" by simp
  from Suc.hyps(1)[OF this h] obtain vs' where
    "v = ListNode ((vs @ [Some c]) @ vs')" "length vs' = n - (i + 1)" by blast
  with lt have "v = ListNode (vs @ (Some c # vs')) \<and> length (Some c # vs') = n - i" by simp
  then show ?case by blast
qed

lemma readIntArrayNode_loop_length:
  "readIntArrayNode_loop r n i vs = Ok (v, r') \<Longrightarrow>
   \<exists>vs'. v = IntArrayNode (vs @ vs') \<and> length vs' = n - i"
proof (induction "n - i" arbitrary: r i vs)
  case 0
  then show ?case by (subst (asm) readIntArrayNode_loop.simps) auto
next
  case (Suc d)
  then have lt: "i < n" by simp
  with Suc.prems obtain c r1 where
    h: "readIntArrayNode_loop r1 n (i + 1) (vs @ [Some c]) = Ok (v, r')"
    by (subst (asm) readIntArrayNode_loop.simps) (auto split: outcome.splits)
  from Suc.hyps(2) have "d = n - (i + 1)" by simp
  from Suc.hyps(1)[OF this h] obtain vs' where
    "v = IntArrayNode ((vs @ [Some c]) @ vs')" "length vs' = n - (i + 1)" by blast
  with lt have "v = IntArrayNode (vs @ (Some c # vs')) \<and> length (Some c # vs') = n - i" by simp
  then show ?case by blast
qed

lemma readListNode_twice_count:
  assumes "readRawNodeType r = Ok (ct, r1)" "readRawInt r1 = Ok (cnt, r2)"
    and "readListNode r = Ok (v, r')"
  shows "\<exists>vs. v = ListNode (replicate (nat (sint cnt)) None @ vs) \<and> length vs = nat (sint cnt)"
proof -
  from assms have "readListNode_loop r2 ct (nat (sint cnt)) 0 (replicate (nat (sint cnt)) None)
      = Ok (v, r')"
    by (simp add: readListNode.simps split: if_splits)
  from readListNode_loop_length[OF this] show ?thesis by simp
qed

lemma readIntArrayNode_twice_count:
  assumes "readRawInt r = Ok (cnt, r1)" and "readIntArrayNode r = Ok (v, r')"
  shows "\<exists>vs. v = IntArrayNode (replicate (nat (sint cnt)) None @ vs) \<and> length vs = nat (sint cnt)"
proof -
  from assms have "readIntArrayNode_loop r1 (nat (sint cnt)) 0 (replicate (nat (sint cnt)) None)
      = Ok (v, r')"
    by (simp add: readIntArrayNode.simps split: if_splits)
  from readIntArrayNode_loop_length[OF this] show ?thesis by simp
qed

text \<open>
  C1. The claim that a declared count \<open>n\<close> yields exactly \<open>n\<close> elements fails for
  every \<open>n > 0\<close>: a List of one Byte and an IntArray of one Int both decode to two
  elements, a nil placeholder before the decoded value.
\<close>

theorem List_and_IntArray_double_length:
  "readNodeOfType [1, 0, 0, 0, 1, 7] NodeTypeList False
     = Ok (ListNode [None, Some (ByteNode 7)], []) \<and>
   readNodeOfType [0, 0, 0, 1, 0, 0, 0, 5] NodeTypeIntArray False
     = Ok (IntArrayNode [None, Some (IntNode 5)], [])"
  by (simp add: eval_simps)

lemma negative_count_Panic:
  "sint cnt < 0 \<Longrightarrow> readListNode (ct # be32 cnt @ r) = Panic"
  "sint cnt < 0 \<Longrightarrow> readIntArrayNode (be32 cnt @ r) = Panic"
proof -
  have l: "length (be32 cnt) = 4" by (simp add: be32_def)
  have i: "readRawInt (be32 cnt @ r) = Ok (cnt, r)"
    by (simp add: readRawInt_def ReadFull_append[OF l] Uint32_be32)
  assume "sint cnt < 0"
  then show "readListNode (ct # be32 cnt @ r) = Panic"
    by (simp add: readListNode.simps readRawNodeType_def readRawByte_def ReadFull_def i)
  from \<open>sint cnt < 0\<close> show "readIntArrayNode (be32 cnt @ r) = Panic"
    by (simp add: readIntArrayNode.simps i)
qed

lemma zero_count_empty:
  "readListNode (ct # be32 0 @ r) = Ok (ListNode [], r)"
proof -
  have l: "length (be32 0) = 4" by (simp add: be32_def)
  have i: "readRawInt (be32 0 @ r) = Ok (0, r)"
    by (simp add: readRawInt_def ReadFull_append[OF l] Uint32_be32)
  show ?thesis
    by (simp add: readListNode.simps readListNode_loop.simps readRawNodeType_def readRawByte_def
        ReadFull_def i)
qed

text \<open>
  C7. A count of zero gives the empty sequence (\<open>zero_count_empty\<close>), but a negative
  count does not: \<^verbatim>\<open>make([]Node, childCount)\<close> panics, in a nested List and through the
  entry point alike.
\<close>

theorem negative_count_panics:
  "readNodeOfType [1, 0xFF, 0xFF, 0xFF, 0xFF] NodeTypeList False = Panic \<and>
   ReadFromStream [9, 0, 0, 1, 0xFF, 0xFF, 0xFF, 0xFF] = Panic"
  by (simp add: eval_simps)

section \<open>Results are framed by the bytes consumed\<close>

lemma framesI:
  assumes "\<And>v r'. g r = Ok (v, r') \<Longrightarrow>
     \<exists>p. r = p @ r' \<and> (\<forall>s. g (p @ s) = Ok (v, s)) \<and>
         (\<forall>k<length p. \<exists>e. g (take k p) = Err e \<and> isShortRead e)"
  shows "frames g r"
  using assms unfolding frames_def by blast

lemma framesD:
  assumes "frames g r" "g r = Ok (v, r')"
  obtains p where "r = p @ r'" "\<And>s. g (p @ s) = Ok (v, s)"
    "\<And>k. k < length p \<Longrightarrow> \<exists>e. g (take k p) = Err e \<and> isShortRead e"
  using assms unfolding frames_def by blast

lemma frames_return: "frames (\<lambda>r. Ok (c, r)) r"
  by (rule framesI) auto

lemma frames_ReadFull: "frames (\<lambda>r. ReadFull r n) r"
proof (rule framesI)
  fix v r' assume a: "ReadFull r n = Ok (v, r')"
  then have h: "n \<le> length r" "v = take n r" "r' = drop n r" by (auto dest: ReadFull_Ok)
  have "r = v @ r'" using h by simp
  moreover have "\<forall>s. ReadFull (v @ s) n = Ok (v, s)" using h by (simp add: ReadFull_def)
  moreover have "\<forall>k<length v. \<exists>e. ReadFull (take k v) n = Err e \<and> isShortRead e"
    using h by (auto simp: ReadFull_def)
  ultimately show "\<exists>p. r = p @ r' \<and> (\<forall>s. ReadFull (p @ s) n = Ok (v, s)) \<and>
         (\<forall>k<length p. \<exists>e. ReadFull (take k p) n = Err e \<and> isShortRead e)" by blast
qed

lemma frames_bind:
  assumes g1: "frames g1 r"
    and g2: "\<And>x r1. g1 r = Ok (x, r1) \<Longrightarrow> frames (g2 x) r1"
    and w: "\<And>e. isShortRead (w e) = isShortRead e"
  shows "frames (\<lambda>r. case g1 r of Err e \<Rightarrow> Err (w e) | Panic \<Rightarrow> Panic | Ok (x, r1) \<Rightarrow> g2 x r1) r"
    (is "frames ?g r")
proof (rule framesI)
  fix v r' assume a: "?g r = Ok (v, r')"
  then obtain x r1 where x: "g1 r = Ok (x, r1)" and y: "g2 x r1 = Ok (v, r')"
    by (auto split: outcome.splits)
  from g1 x obtain p1 where p1: "r = p1 @ r1" "\<And>s. g1 (p1 @ s) = Ok (x, s)"
    "\<And>k. k < length p1 \<Longrightarrow> \<exists>e. g1 (take k p1) = Err e \<and> isShortRead e"
    by (rule framesD) blast
  from g2[OF x] y obtain p2 where p2: "r1 = p2 @ r'" "\<And>s. g2 x (p2 @ s) = Ok (v, s)"
    "\<And>k. k < length p2 \<Longrightarrow> \<exists>e. g2 x (take k p2) = Err e \<and> isShortRead e"
    by (rule framesD) blast
  have A: "r = (p1 @ p2) @ r'" using p1(1) p2(1) by simp
  have B: "\<forall>s. ?g ((p1 @ p2) @ s) = Ok (v, s)"
  proof
    fix s
    have "g1 (p1 @ (p2 @ s)) = Ok (x, p2 @ s)" by (rule p1(2))
    then show "?g ((p1 @ p2) @ s) = Ok (v, s)" by (simp add: p2(2))
  qed
  have C: "\<forall>k<length (p1 @ p2). \<exists>e. ?g (take k (p1 @ p2)) = Err e \<and> isShortRead e"
  proof (intro allI impI)
    fix k assume k: "k < length (p1 @ p2)"
    show "\<exists>e. ?g (take k (p1 @ p2)) = Err e \<and> isShortRead e"
    proof (cases "k < length p1")
      case True
      then obtain e where "g1 (take k p1) = Err e" "isShortRead e" using p1(3) by blast
      with True show ?thesis by (simp add: w)
    next
      case False
      then have t: "take k (p1 @ p2) = p1 @ take (k - length p1) p2" by simp
      from False k have "k - length p1 < length p2" by simp
      then obtain e where "g2 x (take (k - length p1) p2) = Err e" "isShortRead e"
        using p2(3) by blast
      then show ?thesis unfolding t by (simp add: p1(2))
    qed
  qed
  from A B C show "\<exists>p. r = p @ r' \<and> (\<forall>s. ?g (p @ s) = Ok (v, s)) \<and>
         (\<forall>k<length p. \<exists>e. ?g (take k p) = Err e \<and> isShortRead e)" by blast
qed

lemma frames_readRawByte: "frames readRawByte r"
  unfolding readRawByte_def[abs_def]
  by (rule frames_bind[where w="\<lambda>e. e"]) (auto simp: frames_ReadFull intro: frames_return)

lemma frames_if:
  "(c \<Longrightarrow> frames f r) \<Longrightarrow> (\<not> c \<Longrightarrow> frames g r) \<Longrightarrow> frames (\<lambda>r. if c then f r else g r) r"
  by (cases c) simp_all

lemma frames_Panic: "frames (\<lambda>r. Panic) r"
  by (simp add: frames_def)

lemma frames_Err: "frames (\<lambda>r. Err e) r"
  by (simp add: frames_def)

lemma frames_readRawUShort: "frames readRawUShort r"
  unfolding readRawUShort_def[abs_def]
  by (rule frames_bind[where w="\<lambda>e. e"]) (auto simp: frames_ReadFull intro: frames_return)

lemma frames_readRawInt: "frames readRawInt r"
  unfolding readRawInt_def[abs_def]
  by (rule frames_bind[where w="\<lambda>e. e"]) (auto simp: frames_ReadFull intro: frames_return)

lemma frames_readRawNodeType: "frames readRawNodeType r"
  unfolding readRawNodeType_def[abs_def]
  by (rule frames_bind[where w="\<lambda>e. e"]) (auto simp: frames_readRawByte intro: frames_return)

lemma frames_readRawString: "frames readRawString r"
  unfolding readRawString_def[abs_def]
  apply (rule frames_bind[where w="\<lambda>e. e"])
    apply (rule frames_readRawUShort)
   apply (rule frames_bind[where w="\<lambda>e. e"])
     apply (rule frames_ReadFull)
    apply (rule frames_return)
   apply simp
  apply simp
  done

lemma frames_scalars:
  "frames readByteNode r" "frames readShortNode r" "frames readIntNode r"
  "frames readLongNode r" "frames readFloatNode r" "frames readDoubleNode r"
  "frames readStringNode r"
  unfolding readByteNode_def[abs_def] readShortNode_def[abs_def] readIntNode_def[abs_def]
    readLongNode_def[abs_def] readFloatNode_def[abs_def] readDoubleNode_def[abs_def]
    readStringNode_def[abs_def]
  by (rule frames_bind[where w="\<lambda>e. e"];
      auto simp: frames_ReadFull frames_readRawByte frames_readRawInt frames_readRawString
        intro: frames_return)+

lemma frames_reads:
  "frames (\<lambda>r. readNodeOfType r t b) r"
  "frames readListNode r"
  "frames (\<lambda>r. readListNode_loop r ct n i vs) r"
  "frames (\<lambda>r. readCompoundNode r b) r"
  "frames (\<lambda>r. readCompoundNode_loop r b m) r"
  "frames readIntArrayNode r"
  "frames (\<lambda>r. readIntArrayNode_loop r n' i' vs') r"
proof (induct r t b and r and r ct n i vs and r b and r b m and r and r n' i' vs'
    rule: reads_induct)
  case (1 r nodeType isRoot)
  show ?case
    unfolding readNodeOfType.simps[abs_def]
    by (intro frames_if frames_scalars frames_Err 1; assumption)
next
  case (2 r)
  show ?case
    unfolding readListNode.simps[abs_def]
    apply (rule frames_bind[where w="\<lambda>e. e"])
      apply (rule frames_readRawNodeType)
     apply (rule frames_bind[where w="\<lambda>e. e"])
       apply (rule frames_readRawInt)
      apply (rule frames_if)
       apply (rule frames_Panic)
      apply (rule 2; simp)
     apply simp
    apply simp
    done
next
  case (3 r childNodeType n i Values)
  show ?case
    apply (subst readListNode_loop.simps[abs_def])
    apply (rule frames_if)
     apply (rule frames_bind[where w="ReadListIndex i"])
       apply (rule 3; assumption)
      apply (rule 3; simp)
     apply simp
    apply (rule frames_return)
    done
next
  case (4 r isRoot)
  then show ?case
    unfolding readCompoundNode.simps[abs_def] .
next
  case (5 r isRoot Values)
  show ?case
    apply (subst readCompoundNode_loop.simps[abs_def])
    apply (rule frames_bind[where w="\<lambda>e. e"])
      apply (rule frames_readRawNodeType)
     apply (rule frames_if)
      apply (rule frames_return)
     apply (rule frames_bind[where w="\<lambda>e. e"])
       apply (rule frames_readRawString)
      apply (rule frames_bind)
        apply (rule 5; simp)
       apply (rule frames_if)
        apply (rule frames_return)
       apply (rule 5; simp)
      apply simp
     apply simp
    apply simp
    done
next
  case (6 r)
  show ?case
    unfolding readIntArrayNode.simps[abs_def]
    apply (rule frames_bind[where w="\<lambda>e. e"])
      apply (rule frames_readRawInt)
     apply (rule frames_if)
      apply (rule frames_Panic)
     apply (rule 6; simp)
    apply simp
    done
next
  case (7 r n i Values)
  show ?case
    apply (subst readIntArrayNode_loop.simps[abs_def])
    apply (rule frames_if)
     apply (rule frames_bind[where w="ReadListIndex i"])
       apply (rule 7; assumption)
      apply (rule 7; simp)
     apply simp
    apply (rule frames_return)
    done
qed

lemma frames_ReadFromStream: "frames ReadFromStream r"
  unfolding ReadFromStream_def[abs_def]
  by (rule frames_bind[where w=ReadNbtData]) (auto intro: frames_reads frames_return)

section \<open>Maps\<close>

lemma readNodeOfType_length:
  "readNodeOfType r t b = Ok (v, r') \<Longrightarrow> length r' \<le> length r"
  using frames_reads(1)[of t b r] by (auto elim!: framesD)

lemma entriesFrom_ConsE:
  assumes "entriesFrom r ((k, v) # es) r'"
  obtains t r1 r2 r3 where
    "readRawNodeType r = Ok (t, r1)" "t \<noteq> NodeTypeEnd" "readRawString r1 = Ok (k, r2)"
    "readNodeOfType r2 t False = Ok (v, r3)" "entriesFrom r3 es r'"
proof -
  from assms obtain t r1 where a: "readRawNodeType r = Ok (t, r1)"
    by (cases "readRawNodeType r") auto
  with assms have t: "t \<noteq> NodeTypeEnd" by simp
  from assms a obtain k' r2 where b: "readRawString r1 = Ok (k', r2)"
    by (cases "readRawString r1") auto
  with assms a have k: "k' = k" by simp
  from assms a b obtain v' r3 where c: "readNodeOfType r2 t False = Ok (v', r3)"
    by (cases "readNodeOfType r2 t False") auto
  with assms a b have "v' = v" "entriesFrom r3 es r'" by simp_all
  with a t b k c that show thesis by blast
qed

lemma compound_loop_of_entries:
  "entriesFrom r es (NodeTypeEnd # r') \<Longrightarrow>
   readCompoundNode_loop r False m = Ok (CompoundNode (m ++ map_of (rev es)), r')"
proof (induction es arbitrary: r m)
  case Nil
  then have r: "r = NodeTypeEnd # r'" by simp
  show ?case
    unfolding r
    by (simp add: readCompoundNode_loop.simps readRawNodeType_def readRawByte_def ReadFull_def)
next
  case (Cons e es)
  obtain k v where e: "e = (k, v)" by (cases e)
  from Cons.prems obtain t r1 r2 r3 where
    h: "readRawNodeType r = Ok (t, r1)" "t \<noteq> NodeTypeEnd" "readRawString r1 = Ok (k, r2)"
       "readNodeOfType r2 t False = Ok (v, r3)" "entriesFrom r3 es (NodeTypeEnd # r')"
    unfolding e by (rule entriesFrom_ConsE)
  have "readCompoundNode_loop r False m = readCompoundNode_loop r3 False (m(k \<mapsto> v))"
    using h(1-4) by (subst readCompoundNode_loop.simps) simp
  also have "\<dots> = Ok (CompoundNode (m(k \<mapsto> v) ++ map_of (rev es)), r')"
    by (rule Cons.IH[OF h(5)])
  also have "m(k \<mapsto> v) ++ map_of (rev es) = m ++ map_of (rev (e # es))"
    unfolding e by (simp add: map_add_assoc[symmetric])
  finally show ?case .
qed

lemma entries_of_compound_loop:
  "readCompoundNode_loop r False m = Ok (v, r') \<Longrightarrow>
   \<exists>es. entriesFrom r es (NodeTypeEnd # r') \<and> v = CompoundNode (m ++ map_of (rev es))"
proof (induction "length r" arbitrary: r m rule: less_induct)
  case less
  from less.prems obtain t r1 where h1: "readRawNodeType r = Ok (t, r1)"
    by (subst (asm) readCompoundNode_loop.simps) (auto split: outcome.splits)
  then have r: "r = t # r1" by (rule readRawNodeType_Ok)
  show ?case
  proof (cases "t = NodeTypeEnd")
    case True
    with less.prems h1 have "v = CompoundNode m" "r' = r1"
      by (subst (asm) readCompoundNode_loop.simps, simp)+
    with r True have "entriesFrom r [] (NodeTypeEnd # r') \<and> v = CompoundNode (m ++ map_of (rev []))"
      by simp
    then show ?thesis by blast
  next
    case False
    with less.prems h1 obtain k r2 c r3 where
      h: "readRawString r1 = Ok (k, r2)" "readNodeOfType r2 t False = Ok (c, r3)"
         "readCompoundNode_loop r3 False (m(k \<mapsto> c)) = Ok (v, r')"
      by (subst (asm) readCompoundNode_loop.simps) (auto split: outcome.splits)
    from h(1) have "length r2 \<le> length r1" by (auto dest!: readRawString_Ok)
    moreover from h(2) have "length r3 \<le> length r2" by (rule readNodeOfType_length)
    ultimately have "length r3 < length r" using r by simp
    from less.hyps[OF this h(3)] obtain es where
      es: "entriesFrom r3 es (NodeTypeEnd # r')" "v = CompoundNode (m(k \<mapsto> c) ++ map_of (rev es))"
      by blast
    have "entriesFrom r ((k, c) # es) (NodeTypeEnd # r')"
      using h1 False h(1,2) es(1) by simp
    moreover have "v = CompoundNode (m ++ map_of (rev ((k, c) # es)))"
      using es(2) by (simp add: map_add_assoc[symmetric])
    ultimately show ?thesis by blast
  qed
qed

text \<open>
  C3, as amended. For a Map that is not the document root: a first tag of End gives the
  empty mapping (in root mode too); if the stream holds the entries \<open>es\<close> and then End,
  the result is the mapping \<open>map_of (rev es)\<close>, in which a later entry for a key
  replaces an earlier one, and the reader is left after the End tag; and every successful
  decode arises in this way, so the loop ends successfully only at End. In root mode the
  loop returns after its first entry.
\<close>

theorem compound_accumulates_until_End:
  "readCompoundNode (NodeTypeEnd # r0) isRoot = Ok (CompoundNode Map.empty, r0) \<and>
   (entriesFrom r es (NodeTypeEnd # r') \<longrightarrow>
      readCompoundNode r False = Ok (CompoundNode (map_of (rev es)), r')) \<and>
   (readCompoundNode r False = Ok (v, r') \<longrightarrow>
      (\<exists>es. entriesFrom r es (NodeTypeEnd # r') \<and> v = CompoundNode (map_of (rev es)))) \<and>
   (entriesFrom r [(k, c)] r' \<longrightarrow> readCompoundNode r True = Ok (CompoundNode [k \<mapsto> c], r'))"
proof (intro conjI impI)
  show "readCompoundNode (NodeTypeEnd # r0) isRoot = Ok (CompoundNode Map.empty, r0)"
    by (simp add: readCompoundNode.simps readCompoundNode_loop.simps readRawNodeType_def
        readRawByte_def ReadFull_def)
next
  assume "entriesFrom r es (NodeTypeEnd # r')"
  from compound_loop_of_entries[OF this, of Map.empty]
  show "readCompoundNode r False = Ok (CompoundNode (map_of (rev es)), r')"
    by (simp add: readCompoundNode.simps)
next
  assume "readCompoundNode r False = Ok (v, r')"
  then have "readCompoundNode_loop r False Map.empty = Ok (v, r')"
    by (simp add: readCompoundNode.simps)
  from entries_of_compound_loop[OF this]
  show "\<exists>es. entriesFrom r es (NodeTypeEnd # r') \<and> v = CompoundNode (map_of (rev es))"
    by simp
next
  assume "entriesFrom r [(k, c)] r'"
  then obtain t r1 r2 r3 where
    h: "readRawNodeType r = Ok (t, r1)" "t \<noteq> NodeTypeEnd" "readRawString r1 = Ok (k, r2)"
       "readNodeOfType r2 t False = Ok (c, r3)" "entriesFrom r3 [] r'"
    by (rule entriesFrom_ConsE)
  then show "readCompoundNode r True = Ok (CompoundNode [k \<mapsto> c], r')"
    by (simp add: readCompoundNode.simps readCompoundNode_loop.simps)
qed

text \<open>
  C3, witness: two Byte entries named \<open>a\<close>, with values 5 and 6, then End.
\<close>

theorem compound_accumulates_until_End_witness:
  "readCompoundNode [0] True = Ok (CompoundNode Map.empty, []) \<and>
   readCompoundNode [1, 0, 1, 0x61, 5, 1, 0, 1, 0x61, 6, 0] False
     = Ok (CompoundNode [''a'' \<mapsto> ByteNode 6], []) \<and>
   (\<exists>es. entriesFrom [1, 0, 1, 0x61, 5, 1, 0, 1, 0x61, 6, 0] es [NodeTypeEnd] \<and>
      CompoundNode [''a'' \<mapsto> ByteNode 6] = CompoundNode (map_of (rev es))) \<and>
   readCompoundNode [1, 0, 1, 0x61, 5, 1, 0, 1, 0x61, 6, 0] True
     = Ok (CompoundNode [''a'' \<mapsto> ByteNode 5], [1, 0, 1, 0x61, 6, 0])"
proof -
  let ?s = "[1, 0, 1, 0x61, 5, 1, 0, 1, 0x61, 6, 0] :: reader"
  have h1: "entriesFrom ?s [(''a'', ByteNode 5), (''a'', ByteNode 6)] (NodeTypeEnd # [])"
    by (simp add: eval_simps)
  have h2: "readCompoundNode ?s False = Ok (CompoundNode [''a'' \<mapsto> ByteNode 6], [])"
    by (simp add: eval_simps)
  have h3: "entriesFrom ?s [(''a'', ByteNode 5)] [1, 0, 1, 0x61, 6, 0]"
    by (simp add: eval_simps)
  show ?thesis
    using compound_accumulates_until_End[where ?r0.0="[]" and isRoot=True and r="?s"
        and es="[(''a'', ByteNode 5), (''a'', ByteNode 6)]" and r'="[]"
        and v="CompoundNode [''a'' \<mapsto> ByteNode 6]"]
      compound_accumulates_until_End[where r="?s" and k="''a''" and c="ByteNode 5"
        and r'="[1, 0, 1, 0x61, 6, 0]"]
      h1 h2 h3
    by (simp add: NodeTypeEnd_def)
qed

text \<open>
  C3, counterexample: decoded as the document root, the same stream gives a Map holding
  the first entry only; the loop has stopped before the End tag, and the later value 6
  has not replaced 5.
\<close>

theorem root_compound_counterexample:
  "readNodeOfType [1, 0, 1, 0x61, 5, 1, 0, 1, 0x61, 6, 0] NodeTypeCompound True
     = Ok (CompoundNode [''a'' \<mapsto> ByteNode 5], [1, 0, 1, 0x61, 6, 0]) \<and>
   ReadFromStream [1, 0, 1, 0x61, 5, 1, 0, 1, 0x61, 6, 0]
     = Ok (\<lparr>Root = CompoundNode [''a'' \<mapsto> ByteNode 5]\<rparr>, [1, 0, 1, 0x61, 6, 0])"
  by (simp add: eval_simps)

section \<open>The document root\<close>

lemma readRawString_not_Panic: "readRawString r \<noteq> Panic"
  by (auto simp: readRawString_def readRawUShort_def ReadFull_def split: outcome.splits)

lemma readRawNodeType_Cons: "readRawNodeType (t # r) = Ok (t, r)"
  by (simp add: readRawNodeType_def readRawByte_def ReadFull_def)

lemma ReadFromStream_root: "ReadFromStream r =
  (case readCompoundNode_loop r True Map.empty of
     Err e \<Rightarrow> Err (ReadNbtData e)
   | Panic \<Rightarrow> Panic
   | Ok (rootNode, r') \<Rightarrow> Ok (\<lparr>Root = rootNode\<rparr>, r'))"
  by (simp add: ReadFromStream_def readNodeOfType.simps NodeType_defs readCompoundNode.simps)

lemma root_loop_Cons:
  assumes "t \<noteq> NodeTypeEnd" "readRawString r = Ok (k, r1)"
  shows "readCompoundNode_loop (t # r) True Map.empty =
     (case readNodeOfType r1 t False of
        Err e \<Rightarrow> Err (ReadCompoundChild k e)
      | Panic \<Rightarrow> Panic
      | Ok (v, r2) \<Rightarrow> Ok (CompoundNode [k \<mapsto> v], r2))"
proof (cases "readNodeOfType r1 t False")
  case (Ok x)
  obtain v r2 where "x = (v, r2)" by (cases x)
  with Ok show ?thesis
    by (subst readCompoundNode_loop.simps) (simp add: readRawNodeType_Cons assms)
next
  case (Err e)
  then show ?thesis
    by (subst readCompoundNode_loop.simps) (simp add: readRawNodeType_Cons assms)
next
  case Panic
  then show ?thesis
    by (subst readCompoundNode_loop.simps) (simp add: readRawNodeType_Cons assms)
qed

lemma ReadFromStream_Cons:
  assumes "t \<noteq> NodeTypeEnd" "readRawString r = Ok (k, r1)"
  shows "ReadFromStream (t # r) =
     (case readNodeOfType r1 t False of
        Err e \<Rightarrow> Err (ReadNbtData (ReadCompoundChild k e))
      | Panic \<Rightarrow> Panic
      | Ok (v, r2) \<Rightarrow> Ok (\<lparr>Root = CompoundNode [k \<mapsto> v]\<rparr>, r2))"
proof (cases "readNodeOfType r1 t False")
  case (Ok x)
  obtain v r2 where "x = (v, r2)" by (cases x)
  with Ok show ?thesis by (simp add: ReadFromStream_root root_loop_Cons[OF assms])
next
  case (Err e)
  then show ?thesis by (simp add: ReadFromStream_root root_loop_Cons[OF assms])
next
  case Panic
  then show ?thesis by (simp add: ReadFromStream_root root_loop_Cons[OF assms])
qed

lemma ReadFromStream_Cons_Err:
  assumes "t \<noteq> NodeTypeEnd" "readRawString r = Err e"
  shows "ReadFromStream (t # r) = Err (ReadNbtData e)"
proof -
  have "readCompoundNode_loop (t # r) True Map.empty = Err e"
    by (subst readCompoundNode_loop.simps) (simp add: readRawNodeType_Cons assms)
  then show ?thesis by (simp add: ReadFromStream_root)
qed

lemma root_loop_shape:
  assumes "readCompoundNode_loop r True Map.empty = Ok (root, r')"
  shows "\<exists>m. root = CompoundNode m \<and> (m = Map.empty \<or> (\<exists>k v. m = [k \<mapsto> v]))"
proof -
  from assms obtain t r1 where h1: "readRawNodeType r = Ok (t, r1)"
    by (subst (asm) readCompoundNode_loop.simps) (cases "readRawNodeType r", auto)
  show ?thesis
  proof (cases "t = NodeTypeEnd")
    case True
    with assms h1 have "root = CompoundNode Map.empty"
      by (subst (asm) readCompoundNode_loop.simps) simp
    then show ?thesis by blast
  next
    case False
    from assms h1 False obtain k r2 where h2: "readRawString r1 = Ok (k, r2)"
      by (subst (asm) readCompoundNode_loop.simps) (cases "readRawString r1", auto)
    from assms h1 False h2 obtain v r3 where h3: "readNodeOfType r2 t False = Ok (v, r3)"
      by (subst (asm) readCompoundNode_loop.simps) (cases "readNodeOfType r2 t False", auto)
    from assms h1 False h2 h3 have "root = CompoundNode [k \<mapsto> v]"
      by (subst (asm) readCompoundNode_loop.simps) simp
    then show ?thesis by blast
  qed
qed

text \<open>
  C2, as amended. The entry point reads one tag-kind byte and does not require it to
  be Map. On an empty stream it fails with EOF; a first byte of End gives an empty root
  Map; a first byte without a reader (7, 12, above 12) makes it fail, with the
  unsupported-node-type error when the name after it can be read; any other first byte
  \<open>t\<close> is accepted: a name and one value of kind \<open>t\<close> are read and returned as the
  single entry of the root Map. A successful decode always returns a Map with at most one
  entry.
\<close>

theorem root_tag_not_required:
  "ReadFromStream [] = Err (ReadNbtData EOF) \<and>
   ReadFromStream (NodeTypeEnd # r) = Ok (\<lparr>Root = CompoundNode Map.empty\<rparr>, r) \<and>
   (t = NodeTypeByteArray \<or> t = NodeTypeLongArray \<or> NodeTypeLongArray < t \<longrightarrow>
      (\<exists>e. ReadFromStream (t # r) = Err (ReadNbtData e))) \<and>
   (t = NodeTypeByteArray \<or> t = NodeTypeLongArray \<or> NodeTypeLongArray < t \<longrightarrow>
      readRawString r = Ok (k, r1) \<longrightarrow>
      ReadFromStream (t # r) = Err (ReadNbtData (ReadCompoundChild k (UnsupportedNodeType t)))) \<and>
   (t \<noteq> NodeTypeEnd \<longrightarrow> readRawString r = Ok (k, r1) \<longrightarrow>
      readNodeOfType r1 t False = Ok (v, r2) \<longrightarrow>
      ReadFromStream (t # r) = Ok (\<lparr>Root = CompoundNode [k \<mapsto> v]\<rparr>, r2)) \<and>
   (ReadFromStream r = Ok (f, r') \<longrightarrow>
      (\<exists>m. Root f = CompoundNode m \<and> (m = Map.empty \<or> (\<exists>k v. m = [k \<mapsto> v]))))"
proof (intro conjI impI)
  show "ReadFromStream [] = Err (ReadNbtData EOF)"
    by (simp add: eval_simps)
next
  show "ReadFromStream (NodeTypeEnd # r) = Ok (\<lparr>Root = CompoundNode Map.empty\<rparr>, r)"
    by (simp add: eval_simps)
next
  assume t: "t = NodeTypeByteArray \<or> t = NodeTypeLongArray \<or> NodeTypeLongArray < t"
  then have ne: "t \<noteq> NodeTypeEnd" by (auto simp: NodeType_defs)
  show "\<exists>e. ReadFromStream (t # r) = Err (ReadNbtData e)"
  proof (cases "readRawString r")
    case (Ok x)
    obtain k' r1' where "x = (k', r1')" by (cases x)
    with Ok ne show ?thesis
      by (simp add: ReadFromStream_Cons readNodeOfType_unsupported[OF t])
  next
    case (Err e)
    with ne show ?thesis by (simp add: ReadFromStream_Cons_Err)
  next
    case Panic
    then show ?thesis by (simp add: readRawString_not_Panic)
  qed
next
  assume t: "t = NodeTypeByteArray \<or> t = NodeTypeLongArray \<or> NodeTypeLongArray < t"
    and s: "readRawString r = Ok (k, r1)"
  from t have ne: "t \<noteq> NodeTypeEnd" by (auto simp: NodeType_defs)
  show "ReadFromStream (t # r) = Err (ReadNbtData (ReadCompoundChild k (UnsupportedNodeType t)))"
    by (simp add: ReadFromStream_Cons[OF ne s] readNodeOfType_unsupported[OF t])
next
  assume "t \<noteq> NodeTypeEnd" "readRawString r = Ok (k, r1)"
    "readNodeOfType r1 t False = Ok (v, r2)"
  then show "ReadFromStream (t # r) = Ok (\<lparr>Root = CompoundNode [k \<mapsto> v]\<rparr>, r2)"
    by (simp add: ReadFromStream_Cons)
next
  assume a: "ReadFromStream r = Ok (f, r')"
  then obtain root where b: "readCompoundNode_loop r True Map.empty = Ok (root, r')"
    and f: "f = \<lparr>Root = root\<rparr>"
    unfolding ReadFromStream_root
    by (cases "readCompoundNode_loop r True Map.empty") auto
  from root_loop_shape[OF b] f
  show "\<exists>m. Root f = CompoundNode m \<and> (m = Map.empty \<or> (\<exists>k v. m = [k \<mapsto> v]))"
    by simp
qed

text \<open>C2, witness: the first bytes 7 (ByteArray) and 3 (Int).\<close>

theorem root_tag_not_required_witness:
  "(\<exists>e. ReadFromStream [7, 0, 0] = Err (ReadNbtData e)) \<and>
   ReadFromStream [7, 0, 0] = Err (ReadNbtData (ReadCompoundChild [] (UnsupportedNodeType 7))) \<and>
   ReadFromStream [3, 0, 0, 0, 0, 0, 0x2A] = Ok (\<lparr>Root = CompoundNode [[] \<mapsto> IntNode 42]\<rparr>, []) \<and>
   (\<exists>m. Root \<lparr>Root = CompoundNode [[] \<mapsto> IntNode 42]\<rparr> = CompoundNode m \<and>
      (m = Map.empty \<or> (\<exists>k v. m = [k \<mapsto> v])))"
proof -
  have h1: "(7 :: byte) = NodeTypeByteArray \<or> (7 :: byte) = NodeTypeLongArray
      \<or> NodeTypeLongArray < (7 :: byte)"
    by (simp add: NodeType_defs)
  have h2: "readRawString [0, 0] = Ok ([], [])"
    by (simp add: eval_simps)
  have h3: "(3 :: byte) \<noteq> NodeTypeEnd" by (simp add: NodeType_defs)
  have h4: "readRawString [0, 0, 0, 0, 0, 0x2A] = Ok ([], [0, 0, 0, 0x2A])"
    by (simp add: eval_simps)
  have h5: "readNodeOfType [0, 0, 0, 0x2A] 3 False = Ok (IntNode 42, [])"
    by (simp add: eval_simps)
  have h6: "ReadFromStream [3, 0, 0, 0, 0, 0, 0x2A]
      = Ok (\<lparr>Root = CompoundNode [[] \<mapsto> IntNode 42]\<rparr>, [])"
    by (simp add: eval_simps)
  let ?f = "\<lparr>Root = CompoundNode [[] \<mapsto> IntNode 42]\<rparr>"
  note A = root_tag_not_required[of "[0, 0]" 7 "[]" "[]" "IntNode 0" "[]" ?f "[]"]
  note B = root_tag_not_required[of "[0, 0, 0, 0, 0, 0x2A]" 3 "[]" "[0, 0, 0, 0x2A]"
      "IntNode 42" "[]" ?f "[]"]
  note C = root_tag_not_required[of "[3, 0, 0, 0, 0, 0, 0x2A]" 3 "[]" "[]" "IntNode 0" "[]"
      ?f "[]"]
  from A h1 have a: "\<exists>e. ReadFromStream [7, 0, 0] = Err (ReadNbtData e)" by blast
  from A h1 h2 have b: "ReadFromStream [7, 0, 0]
      = Err (ReadNbtData (ReadCompoundChild [] (UnsupportedNodeType 7)))" by blast
  from B h3 h4 h5 have c: "ReadFromStream [3, 0, 0, 0, 0, 0, 0x2A] = Ok (?f, [])" by blast
  from C h6 have d: "\<exists>m. Root ?f = CompoundNode m \<and> (m = Map.empty \<or> (\<exists>k v. m = [k \<mapsto> v]))"
    by blast
  from a b c d show ?thesis by blast
qed

text \<open>
  C2, counterexample: the first tag byte is Int (3), not Map (10), and the decode
  succeeds.
\<close>

theorem root_tag_counterexample:
  "ReadFromStream [3, 0, 0, 0, 0, 0, 0x2A] = Ok (\<lparr>Root = CompoundNode [[] \<mapsto> IntNode 42]\<rparr>, []) \<and>
   (3 :: byte) \<noteq> NodeTypeCompound"
  by (simp add: eval_simps)

text \<open>
  C4, counterexample: on the example document the root Map is not the Map with the single
  key \<open>x\<close>; the leading Map tag and its empty name are read as the root's one entry.
\<close>

theorem example_document_counterexample:
  "ReadFromStream [0x0A, 0x00, 0x00, 0x03, 0x00, 0x01, 0x78, 0x00, 0x00, 0x00, 0x2A, 0x00]
     = Ok (\<lparr>Root = CompoundNode [[] \<mapsto> CompoundNode [''x'' \<mapsto> IntNode 42]]\<rparr>, []) \<and>
   CompoundNode [[] \<mapsto> CompoundNode [''x'' \<mapsto> IntNode 42]] \<noteq> CompoundNode [''x'' \<mapsto> IntNode 42]"
proof -
  have "[[] \<mapsto> CompoundNode [''x'' \<mapsto> IntNode 42]] ''x'' \<noteq> [''x'' \<mapsto> IntNode 42] ''x''"
    by simp
  then have "[[] \<mapsto> CompoundNode [''x'' \<mapsto> IntNode 42]] \<noteq> [''x'' \<mapsto> IntNode 42]"
    by metis
  then show ?thesis by (simp add: eval_simps)
qed

text \<open>
  C4, as amended. Decoding the example document succeeds and consumes it all; the root
  Map has exactly one key, the empty name, and its value is the Map with exactly one key,
  \<open>x\<close>, holding Int 42.
\<close>

theorem example_document_nested:
  "\<exists>m. ReadFromStream [0x0A, 0x00, 0x00, 0x03, 0x00, 0x01, 0x78, 0x00, 0x00, 0x00, 0x2A, 0x00]
         = Ok (\<lparr>Root = CompoundNode m\<rparr>, []) \<and>
       dom m = {[]} \<and> m [] = Some (CompoundNode [''x'' \<mapsto> IntNode 42]) \<and>
       dom [''x'' \<mapsto> IntNode 42] = {''x''}"
  by (rule exI[where x="[[] \<mapsto> CompoundNode [''x'' \<mapsto> IntNode 42]]"]) (simp add: eval_simps)

section \<open>The Type methods\<close>

text \<open>
  A decoded node reports the tag it was decoded for, except that a String node reports
  the Int tag.
\<close>

lemma readCompoundNode_loop_is_Compound:
  "readCompoundNode_loop r b m = Ok (v, r') \<Longrightarrow> \<exists>m'. v = CompoundNode m'"
proof (induction "length r" arbitrary: r m rule: less_induct)
  case less
  from less.prems obtain t r1 where h1: "readRawNodeType r = Ok (t, r1)"
    by (subst (asm) readCompoundNode_loop.simps) (cases "readRawNodeType r", auto)
  then have r: "r = t # r1" by (rule readRawNodeType_Ok)
  show ?case
  proof (cases "t = NodeTypeEnd")
    case True
    with less.prems h1 have "v = CompoundNode m"
      by (subst (asm) readCompoundNode_loop.simps) simp
    then show ?thesis by blast
  next
    case False
    from less.prems h1 False obtain k r2 where h2: "readRawString r1 = Ok (k, r2)"
      by (subst (asm) readCompoundNode_loop.simps) (cases "readRawString r1", auto)
    from less.prems h1 False h2 obtain c r3 where h3: "readNodeOfType r2 t False = Ok (c, r3)"
      by (subst (asm) readCompoundNode_loop.simps) (cases "readNodeOfType r2 t False", auto)
    show ?thesis
    proof (cases b)
      case True
      with less.prems h1 False h2 h3 have "v = CompoundNode (m(k \<mapsto> c))"
        by (subst (asm) readCompoundNode_loop.simps) simp
      then show ?thesis by blast
    next
      case nr: False
      with less.prems h1 False h2 h3
      have h4: "readCompoundNode_loop r3 b (m(k \<mapsto> c)) = Ok (v, r')"
        by (subst (asm) readCompoundNode_loop.simps) simp
      from h2 have "length r2 \<le> length r1" by (auto dest!: readRawString_Ok)
      moreover from h3 have "length r3 \<le> length r2" by (rule readNodeOfType_length)
      ultimately have "length r3 < length r" using r by simp
      from less.hyps[OF this h4] show ?thesis .
    qed
  qed
qed

lemma readListNode_is_List: "readListNode r = Ok (v, r') \<Longrightarrow> \<exists>vs. v = ListNode vs"
proof -
  assume a: "readListNode r = Ok (v, r')"
  then obtain ct r1 where h1: "readRawNodeType r = Ok (ct, r1)"
    by (subst (asm) readListNode.simps) (cases "readRawNodeType r", auto)
  with a obtain cnt r2 where h2: "readRawInt r1 = Ok (cnt, r2)"
    by (subst (asm) readListNode.simps) (cases "readRawInt r1", auto)
  from readListNode_twice_count[OF h1 h2 a] show ?thesis by blast
qed

lemma readIntArrayNode_is_IntArray:
  "readIntArrayNode r = Ok (v, r') \<Longrightarrow> \<exists>vs. v = IntArrayNode vs"
proof -
  assume a: "readIntArrayNode r = Ok (v, r')"
  then obtain cnt r1 where h1: "readRawInt r = Ok (cnt, r1)"
    by (subst (asm) readIntArrayNode.simps) (cases "readRawInt r", auto)
  from readIntArrayNode_twice_count[OF h1 a] show ?thesis by blast
qed

lemma scalar_is:
  "readByteNode r = Ok (v, r') \<Longrightarrow> \<exists>x. v = ByteNode x"
  "readShortNode r = Ok (v, r') \<Longrightarrow> \<exists>x. v = ShortNode x"
  "readIntNode r = Ok (v, r') \<Longrightarrow> \<exists>x. v = IntNode x"
  "readLongNode r = Ok (v, r') \<Longrightarrow> \<exists>x. v = LongNode x"
  "readFloatNode r = Ok (v, r') \<Longrightarrow> \<exists>x. v = FloatNode x"
  "readDoubleNode r = Ok (v, r') \<Longrightarrow> \<exists>x. v = DoubleNode x"
  "readStringNode r = Ok (v, r') \<Longrightarrow> \<exists>x. v = StringNode x"
  by (auto simp: readByteNode_def readShortNode_def readIntNode_def readLongNode_def
      readFloatNode_def readDoubleNode_def readStringNode_def split: outcome.splits)

lemma Type_of_decoded:
  assumes "readNodeOfType r t b = Ok (v, r')"
  shows "Type v = (if t = NodeTypeString then NodeTypeInt else t)"
proof -
  consider "t = NodeTypeByte" | "t = NodeTypeShort" | "t = NodeTypeInt" | "t = NodeTypeLong"
    | "t = NodeTypeFloat" | "t = NodeTypeDouble" | "t = NodeTypeString" | "t = NodeTypeList"
    | "t = NodeTypeCompound" | "t = NodeTypeIntArray"
    | "t \<noteq> NodeTypeByte" "t \<noteq> NodeTypeShort" "t \<noteq> NodeTypeInt" "t \<noteq> NodeTypeLong"
      "t \<noteq> NodeTypeFloat" "t \<noteq> NodeTypeDouble" "t \<noteq> NodeTypeString" "t \<noteq> NodeTypeList"
      "t \<noteq> NodeTypeCompound" "t \<noteq> NodeTypeIntArray"
    by blast
  then show ?thesis
  proof cases
    case 1
    with assms show ?thesis
      by (auto simp: readNodeOfType.simps NodeType_defs dest!: scalar_is(1))
  next
    case 2
    with assms show ?thesis
      by (auto simp: readNodeOfType.simps NodeType_defs dest!: scalar_is(2))
  next
    case 3
    with assms show ?thesis
      by (auto simp: readNodeOfType.simps NodeType_defs dest!: scalar_is(3))
  next
    case 4
    with assms show ?thesis
      by (auto simp: readNodeOfType.simps NodeType_defs dest!: scalar_is(4))
  next
    case 5
    with assms show ?thesis
      by (auto simp: readNodeOfType.simps NodeType_defs dest!: scalar_is(5))
  next
    case 6
    with assms show ?thesis
      by (auto simp: readNodeOfType.simps NodeType_defs dest!: scalar_is(6))
  next
    case 7
    with assms show ?thesis
      by (auto simp: readNodeOfType.simps NodeType_defs dest!: scalar_is(7))
  next
    case 8
    with assms show ?thesis
      by (auto simp: readNodeOfType.simps NodeType_defs dest!: readListNode_is_List)
  next
    case 9
    with assms show ?thesis
      by (auto simp: readNodeOfType.simps readCompoundNode.simps NodeType_defs
          dest!: readCompoundNode_loop_is_Compound)
  next
    case 10
    with assms show ?thesis
      by (auto simp: readNodeOfType.simps NodeType_defs dest!: readIntArrayNode_is_IntArray)
  next
    case 11
    with assms show ?thesis by (simp add: readNodeOfType.simps)
  qed
qed

text \<open>
  C9. The claim that every variant reports its own wire tag fails for the String node:
  the node decoded from a String payload (wire tag 8) reports the Int tag, 3.
\<close>

theorem StringNode_reports_Int:
  "readNodeOfType [0, 1, 0x78] NodeTypeString False = Ok (StringNode ''x'', []) \<and>
   Type (StringNode ''x'') = 3 \<and> NodeTypeString = 8"
  by (simp add: eval_simps)

section \<open>Truncated streams\<close>

text \<open>
  A read of a field from fewer bytes than its width, or than the length a string
  declares, fails with a short read.
\<close>

lemma ReadFull_short: "length r < n \<Longrightarrow> \<exists>e. ReadFull r n = Err e \<and> isShortRead e"
  by (simp add: ReadFull_def)

lemma short_read_fields:
  "length r < 1 \<Longrightarrow> readRawByte r = Err EOF"
  "length r < 2 \<Longrightarrow> \<exists>e. readRawUShort r = Err e \<and> isShortRead e"
  "length r < 4 \<Longrightarrow> \<exists>e. readRawInt r = Err e \<and> isShortRead e"
  "length r < 1 \<Longrightarrow> \<exists>e. readByteNode r = Err e \<and> isShortRead e"
  "length r < 2 \<Longrightarrow> \<exists>e. readShortNode r = Err e \<and> isShortRead e"
  "length r < 4 \<Longrightarrow> \<exists>e. readIntNode r = Err e \<and> isShortRead e"
  "length r < 8 \<Longrightarrow> \<exists>e. readLongNode r = Err e \<and> isShortRead e"
  "length r < 4 \<Longrightarrow> \<exists>e. readFloatNode r = Err e \<and> isShortRead e"
  "length r < 8 \<Longrightarrow> \<exists>e. readDoubleNode r = Err e \<and> isShortRead e"
  by (simp_all add: readRawByte_def readRawUShort_def readRawInt_def readByteNode_def
      readShortNode_def readIntNode_def readLongNode_def readFloatNode_def readDoubleNode_def
      ReadFull_def)

lemma short_read_string:
  assumes "readRawUShort r = Ok (strLen, r1)" "length r1 < unat strLen"
  shows "\<exists>e. readRawString r = Err e \<and> isShortRead e"
    and "\<exists>e. readStringNode r = Err e \<and> isShortRead e"
  using assms by (simp_all add: readRawString_def readStringNode_def ReadFull_def)

text \<open>
  The errors are propagated: where a decode succeeds, the same decode of the stream cut
  anywhere inside the bytes it consumed fails with an error that unwraps to a short read.
\<close>

lemma cut_inside_consumed_bytes:
  "(readRawString r = Ok (s, r') \<longrightarrow> k < length r - length r' \<longrightarrow>
      (\<exists>e. readRawString (take k r) = Err e \<and> isShortRead e)) \<and>
   (readNodeOfType r t b = Ok (v, r') \<longrightarrow> k < length r - length r' \<longrightarrow>
      (\<exists>e. readNodeOfType (take k r) t b = Err e \<and> isShortRead e)) \<and>
   (ReadFromStream r = Ok (f, r') \<longrightarrow> k < length r - length r' \<longrightarrow>
      (\<exists>e. ReadFromStream (take k r) = Err e \<and> isShortRead e))"
proof (intro conjI impI)
  assume a: "readRawString r = Ok (s, r')" and k: "k < length r - length r'"
  from frames_readRawString[of r] a obtain p where p: "r = p @ r'"
    "\<And>k. k < length p \<Longrightarrow> \<exists>e. readRawString (take k p) = Err e \<and> isShortRead e"
    by (rule framesD) blast
  from p(1) k have "k < length p" by simp
  with p show "\<exists>e. readRawString (take k r) = Err e \<and> isShortRead e" by simp
next
  assume a: "readNodeOfType r t b = Ok (v, r')" and k: "k < length r - length r'"
  from frames_reads(1)[of t b r] a obtain p where p: "r = p @ r'"
    "\<And>k. k < length p \<Longrightarrow> \<exists>e. readNodeOfType (take k p) t b = Err e \<and> isShortRead e"
    by (rule framesD) blast
  from p(1) k have "k < length p" by simp
  with p show "\<exists>e. readNodeOfType (take k r) t b = Err e \<and> isShortRead e" by simp
next
  assume a: "ReadFromStream r = Ok (f, r')" and k: "k < length r - length r'"
  from frames_ReadFromStream[of r] a obtain p where p: "r = p @ r'"
    "\<And>k. k < length p \<Longrightarrow> \<exists>e. ReadFromStream (take k p) = Err e \<and> isShortRead e"
    by (rule framesD) blast
  from p(1) k have "k < length p" by simp
  with p show "\<exists>e. ReadFromStream (take k r) = Err e \<and> isShortRead e" by simp
qed


end
